theory Spec2Isabelle
  imports Main "HOL-Library.Sublist"
begin

section \<open>JavaScript strings and arrays\<close>

text \<open>
  A JavaScript string is modelled as a \<^typ>\<open>string\<close>, a list of characters; the
  methods used by the route matcher are list functions.  \<open>s.startsWith(t)\<close>,
  \<open>s.endsWith(t)\<close> and \<open>s.includes(t)\<close> take the receiver first.
\<close>

definition startsWith :: "string \<Rightarrow> string \<Rightarrow> bool" where
  "startsWith s t = prefix t s"

definition endsWith :: "string \<Rightarrow> string \<Rightarrow> bool" where
  "endsWith s t = suffix t s"

definition str_includes :: "string \<Rightarrow> string \<Rightarrow> bool" where
  "str_includes s t = sublist t s"

text \<open>
  \<open>s.split(c)\<close> for a separator of one character: every occurrence of the separator
  cuts, and the result always has at least one element (\<open>"".split("?")\<close> is \<open>[""]\<close>).
\<close>

fun split :: "char \<Rightarrow> string \<Rightarrow> string list" where
  "split c [] = [[]]"
| "split c (x # xs) =
     (if x = c then [] # split c xs
      else (case split c xs of p # ps \<Rightarrow> (x # p) # ps | [] \<Rightarrow> [[x]]))"

text \<open>\<open>parts.join(c)\<close> for a separator of one character.\<close>

fun join :: "char \<Rightarrow> string list \<Rightarrow> string" where
  "join c [] = []"
| "join c [p] = p"
| "join c (p # q # ps) = p @ c # join c (q # ps)"

text \<open>
  \<open>s.substring(a, b)\<close>: both indices are clamped to \<open>0 .. s.length\<close> and swapped when
  the first is the larger one.
\<close>

definition substring :: "string \<Rightarrow> int \<Rightarrow> int \<Rightarrow> string" where
  "substring s a b =
     (let n = int (length s);
          a' = min (max a 0) n;
          b' = min (max b 0) n;
          lo = min a' b';
          hi = max a' b'
      in take (nat (hi - lo)) (drop (nat lo) s))"

text \<open>\<open>s.slice(0, -1)\<close>: the string without its last character.\<close>

definition slice_0_neg1 :: "string \<Rightarrow> string" where
  "slice_0_neg1 s = take (length s - 1) s"

text \<open>\<open>xs[i]\<close> on an array: \<open>undefined\<close> (here \<open>None\<close>) out of range.\<close>

definition at_index :: "'a list \<Rightarrow> nat \<Rightarrow> 'a option" where
  "at_index xs i = (if i < length xs then Some (xs ! i) else None)"

text \<open>\<open>parts.filter(Boolean)\<close> on an array of strings drops the empty strings.\<close>

definition filter_Boolean :: "string list \<Rightarrow> string list" where
  "filter_Boolean ps = filter (\<lambda>p. p \<noteq> []) ps"

section \<open>The site manager: data\<close>

text \<open>What a \<open>try\<close> block can catch.\<close>

datatype exn = TypeError | SyntaxError

text \<open>
  The fields read from the browser's \<open>URL\<close> object.  The constructor \<open>new URL(url)\<close>
  is the browser's, not the repository's: it is a parameter \<open>URL\<close> of the functions
  below, returning \<open>Inl TypeError\<close> where the constructor throws.
\<close>

record url_obj =
  hostname :: string
  pathname :: string
  search :: string
  hash :: string

text \<open>
  \<open>new RegExp(src)\<close> is a parameter \<open>RegExp\<close> as well: \<open>Inl SyntaxError\<close> where the
  pattern does not compile, otherwise the predicate \<open>regex.test\<close>.
\<close>

type_synonym regexp_ctor = "string \<Rightarrow> exn + (string \<Rightarrow> bool)"

text \<open>A route of \<open>siteConfigs\<close>; \<open>matchType\<close> is \<open>None\<close> when the property is not set.\<close>

record 'h route =
  path :: string
  matchType :: "string option"
  handler :: 'h

record 'h site =
  url :: string
  routes :: "'h route list"

record url_parts =
  parts_path :: string
  parts_query :: string
  parts_hash :: string
  parts_fullPath :: string

section \<open>The site manager: operations\<close>

definition parseUrlParts :: "string \<Rightarrow> url_parts" where
  "parseUrlParts u =
     (let pathParts = split CHR ''?'' u;
          path0 = hd pathParts;
          queryAndHash = (if length pathParts > 1 then pathParts ! 1 else []);
          hashParts = split CHR ''#'' queryAndHash;
          query0 = hd hashParts;
          hash0 = (if length hashParts > 1 then CHR ''#'' # hashParts ! 1 else []);
          fallback = (length pathParts = 1 \<and> str_includes u ''#'');
          fullHashParts = split CHR ''#'' u;
          p = (if fallback then hd fullHashParts else path0);
          h = (if fallback then CHR ''#'' # join CHR ''#'' (drop 1 fullHashParts) else hash0);
          q = (if fallback then [] else query0)
      in \<lparr> parts_path = p, parts_query = q, parts_hash = h,
           parts_fullPath = p @ (if q \<noteq> [] then CHR ''?'' # q else []) @ h \<rparr>)"

definition matchAllPages :: "string \<Rightarrow> bool" where
  "matchAllPages routePath = (routePath = ''/'')"

definition matchExact :: "string \<Rightarrow> string \<Rightarrow> bool" where
  "matchExact routePath urlFullPath = (routePath = urlFullPath)"

definition matchPathExact :: "string \<Rightarrow> url_parts \<Rightarrow> bool" where
  "matchPathExact routePath urlParts =
     (let normalizedRoutePath =
            (if endsWith routePath ''/'' then slice_0_neg1 routePath else routePath);
          normalizedUrlPath =
            (if endsWith (parts_path urlParts) ''/'' then slice_0_neg1 (parts_path urlParts)
             else parts_path urlParts)
      in normalizedRoutePath = normalizedUrlPath)"

text \<open>The \<open>for\<close> loop of \<open>matchPathPrefix\<close>, from index \<open>i\<close> on.\<close>

function matchPathPrefix_loop :: "string list \<Rightarrow> string list \<Rightarrow> nat \<Rightarrow> bool" where
  "matchPathPrefix_loop routeParts urlPathParts i =
     (if i < length routeParts then
        (if at_index routeParts i \<noteq> at_index urlPathParts i then False
         else matchPathPrefix_loop routeParts urlPathParts (i + 1))
      else True)"
  by pat_completeness auto
termination
  by (relation "measure (\<lambda>(routeParts, urlPathParts, i). length routeParts - i)") auto

declare matchPathPrefix_loop.simps [simp del]

definition matchPathPrefix :: "string \<Rightarrow> url_parts \<Rightarrow> bool" where
  "matchPathPrefix routePath urlParts =
     (let routeParts = filter_Boolean (split CHR ''/'' routePath);
          urlPathParts = filter_Boolean (split CHR ''/'' (parts_path urlParts))
      in if length urlPathParts < length routeParts then False
         else matchPathPrefix_loop routeParts urlPathParts 0)"

definition matchRegex :: "regexp_ctor \<Rightarrow> string \<Rightarrow> string \<Rightarrow> bool" where
  "matchRegex RegExp routePath urlFullPath =
     (case RegExp (substring routePath 1 (int (length routePath) - 1)) of
        Inl e \<Rightarrow> False
      | Inr regex \<Rightarrow> regex urlFullPath)"

text \<open>The callback that \<open>findMatchingRoute\<close> hands to \<open>site.routes.find\<close>.\<close>

definition routeMatches :: "regexp_ctor \<Rightarrow> string \<Rightarrow> 'h route \<Rightarrow> bool" where
  "routeMatches RegExp fullPath route =
     (let urlParts = parseUrlParts fullPath
      in if matchAllPages (path route) then True
         else if matchType route = Some ''exact'' then matchExact (path route) fullPath
         else if matchType route = Some ''pathExact'' then matchPathExact (path route) urlParts
         else if matchType route = Some ''regex'' then matchRegex RegExp (path route) fullPath
         else matchPathPrefix (path route) urlParts)"

definition findMatchingRoute ::
  "regexp_ctor \<Rightarrow> 'h site \<Rightarrow> string \<Rightarrow> string \<Rightarrow> string \<Rightarrow> 'h route option" where
  "findMatchingRoute RegExp site fullPath pathname' hash' =
     find (routeMatches RegExp fullPath) (routes site)"

text \<open>The three hostname strategies of the site lookup, one disjunction.\<close>

definition siteMatches :: "string \<Rightarrow> 'h site \<Rightarrow> bool" where
  "siteMatches hostname' site =
     (hostname' = url site \<or> endsWith hostname' (''.'' @ url site) \<or> str_includes hostname' (url site))"

text \<open>
  The body of the \<open>try\<close> block of \<open>findHandlerForUrl\<close>; \<open>Inl\<close> is an exception that
  leaves the block, \<open>Inr None\<close> is \<open>null\<close>.
\<close>

definition findHandlerForUrl_try ::
  "(string \<Rightarrow> exn + url_obj) \<Rightarrow> regexp_ctor \<Rightarrow> 'h site list \<Rightarrow> string \<Rightarrow> exn + 'h option" where
  "findHandlerForUrl_try URL RegExp siteConfigs u =
     (case URL u of
        Inl e \<Rightarrow> Inl e
      | Inr urlObj \<Rightarrow>
          (let fullPath = pathname urlObj @ hash urlObj
           in case find (siteMatches (hostname urlObj)) siteConfigs of
                None \<Rightarrow> Inr None
              | Some site \<Rightarrow>
                  (case findMatchingRoute RegExp site fullPath (pathname urlObj) (hash urlObj) of
                     None \<Rightarrow> Inr None
                   | Some route \<Rightarrow> Inr (Some (handler route)))))"

text \<open>\<open>findHandlerForUrl\<close>: the \<open>catch\<close> clause turns every exception into \<open>null\<close>.\<close>

definition findHandlerForUrl ::
  "(string \<Rightarrow> exn + url_obj) \<Rightarrow> regexp_ctor \<Rightarrow> 'h site list \<Rightarrow> string \<Rightarrow> exn + 'h option" where
  "findHandlerForUrl URL RegExp siteConfigs u =
     (case findHandlerForUrl_try URL RegExp siteConfigs u of
        Inl error \<Rightarrow> Inr None
      | Inr h \<Rightarrow> Inr h)"

section \<open>The site manager of \<open>src/siteManager.js\<close>\<close>

text \<open>
  The file \<open>src/siteManager.js\<close> holds another \<open>findHandlerForUrl\<close>, with the same site
  lookup and one callback for the routes, which does not read \<open>matchType\<close>.
  \<open>route.path.replace("*", "")\<close> removes the first \<open>*\<close>.  Of \<open>routePathParts[1]\<close> only
  its truth value and its text when non-empty are used, so \<open>undefined\<close> is the empty
  string here.  The segment loop is the loop of \<open>matchPathPrefix\<close>.
\<close>

definition routeMatches_siteManager_js ::
  "regexp_ctor \<Rightarrow> string \<Rightarrow> string \<Rightarrow> string \<Rightarrow> 'h route \<Rightarrow> bool" where
  "routeMatches_siteManager_js RegExp fullPath pathname' hash' route =
     (let routeHasHash = str_includes (path route) ''#''
      in if path route = ''/'' then True
         else if fullPath = path route then True
         else if pathname' = path route then True
         else if endsWith (path route) ''/'' \<and> \<not> str_includes (path route) ''*'' then
           (if routeHasHash then startsWith fullPath (path route)
            else startsWith pathname' (path route))
         else if \<not> endsWith (path route) ''/'' \<and> \<not> str_includes (path route) ''*'' then
           (if routeHasHash then
              (let routePathParts = split CHR ''#'' (path route);
                   routePathname = hd routePathParts;
                   routeHash = (case at_index routePathParts 1 of None \<Rightarrow> [] | Some s \<Rightarrow> s)
               in if \<not> startsWith pathname' routePathname then False
                  else if hash' \<noteq> [] \<and> routeHash \<noteq> []
                          \<and> \<not> startsWith hash' (CHR ''#'' # routeHash) then False
                  else True)
            else
              (let routeParts = filter (\<lambda>part. length part > 0) (split CHR ''/'' (path route));
                   pathParts = filter (\<lambda>part. length part > 0) (split CHR ''/'' pathname')
               in if length routeParts > length pathParts then False
                  else matchPathPrefix_loop routeParts pathParts 0))
         else if str_includes (path route) ''*'' then
           startsWith fullPath (remove1 CHR ''*'' (path route))
         else if startsWith (path route) ''/^'' \<and> endsWith (path route) ''$/'' then
           (case RegExp (substring (path route) 1 (int (length (path route)) - 1)) of
              Inl e \<Rightarrow> False
            | Inr regex \<Rightarrow> regex fullPath)
         else False)"

definition findHandlerForUrl_siteManager_js_try ::
  "(string \<Rightarrow> exn + url_obj) \<Rightarrow> regexp_ctor \<Rightarrow> 'h site list \<Rightarrow> string \<Rightarrow> exn + 'h option" where
  "findHandlerForUrl_siteManager_js_try URL RegExp siteConfigs u =
     (case URL u of
        Inl e \<Rightarrow> Inl e
      | Inr urlObj \<Rightarrow>
          (let fullPath = pathname urlObj @ hash urlObj
           in case find (siteMatches (hostname urlObj)) siteConfigs of
                None \<Rightarrow> Inr None
              | Some site \<Rightarrow>
                  (case find (routeMatches_siteManager_js RegExp fullPath (pathname urlObj)
                                (hash urlObj)) (routes site) of
                     None \<Rightarrow> Inr None
                   | Some route \<Rightarrow> Inr (Some (handler route)))))"

definition findHandlerForUrl_siteManager_js ::
  "(string \<Rightarrow> exn + url_obj) \<Rightarrow> regexp_ctor \<Rightarrow> 'h site list \<Rightarrow> string \<Rightarrow> exn + 'h option" where
  "findHandlerForUrl_siteManager_js URL RegExp siteConfigs u =
     (case findHandlerForUrl_siteManager_js_try URL RegExp siteConfigs u of
        Inl error \<Rightarrow> Inr None
      | Inr h \<Rightarrow> Inr h)"

section \<open>The content script: data\<close>

text \<open>The two entries of \<open>CONFIG\<close>, in milliseconds.\<close>

definition URL_PROCESS_DELAY :: int where
  "URL_PROCESS_DELAY = 2000"

definition URL_REPEAT_THRESHOLD :: int where
  "URL_REPEAT_THRESHOLD = 2000"

text \<open>
  The object \<open>state\<close>.  A URL value is a string or \<open>null\<close> (\<open>None\<close>), since
  \<open>processUrlChange\<close> is called with \<open>state.pendingUrl\<close>; \<open>urlChangeTimer\<close> is \<open>null\<close> or the
  identifier that \<open>setTimeout\<close> returned.
\<close>

record dispatch_state =
  lastProcessedUrl :: "string option"
  lastProcessTime :: int
  contentScriptLoaded :: bool
  urlChangeTimer :: "nat option"
  pendingUrl :: "string option"

text \<open>
  The page context around \<open>state\<close>: the timeouts that the browser holds for
  \<open>handleUrlChange\<close> (identifier and due time), the identifier the next \<open>setTimeout\<close> returns, and
  what the script has done so far: \<open>processed\<close> lists the arguments of the calls of
  \<open>processUrlChange\<close> (its first statement logs them), \<open>matcherCalls\<close> the arguments of the
  calls of \<open>SiteManager.findHandlerForUrl\<close>, \<open>handlerCalls\<close> the handlers invoked, each with
  the \<open>url\<close> and \<open>timestamp\<close> of its \<open>pageInfo\<close>.  \<open>clock\<close> is the time of the last event
  and \<open>lastSignal\<close> the URL of the last call of \<open>handleUrlChange\<close>; neither is read by the
  script.
\<close>

record 'h page =
  state :: dispatch_state
  timers :: "(nat \<times> int) list"
  nextTimerId :: nat
  processed :: "string option list"
  matcherCalls :: "string option list"
  handlerCalls :: "('h \<times> string option \<times> int) list"
  clock :: int
  lastSignal :: "string option"

text \<open>
  \<open>window.SiteManager.findHandlerForUrl\<close>, when \<open>window.SiteManager\<close> is there and the
  property is a function.
\<close>

type_synonym 'h site_manager = "(string option \<Rightarrow> exn + 'h option) option"

section \<open>The content script: operations\<close>

text \<open>
  The browser's \<open>setTimeout(callback, delay)\<close> at time \<open>now\<close> and \<open>clearTimeout(id)\<close>.  The
  content script schedules one callback only, so a timeout is its identifier and due time.
\<close>

definition setTimeout :: "int \<Rightarrow> int \<Rightarrow> 'h page \<Rightarrow> nat \<times> 'h page" where
  "setTimeout delay now pg =
     (nextTimerId pg,
      pg\<lparr>timers := timers pg @ [(nextTimerId pg, now + delay)],
         nextTimerId := nextTimerId pg + 1\<rparr>)"

definition clearTimeout :: "nat \<Rightarrow> 'h page \<Rightarrow> 'h page" where
  "clearTimeout i pg = pg\<lparr>timers := filter (\<lambda>(j, due). j \<noteq> i) (timers pg)\<rparr>"

text \<open>
  \<open>handleUrlChange(url)\<close> at time \<open>now\<close>.  \<open>if (state.urlChangeTimer)\<close> holds for an
  identifier other than \<open>0\<close>.  The call is noted in \<open>lastSignal\<close>.
\<close>

definition handleUrlChange :: "string \<Rightarrow> int \<Rightarrow> 'h page \<Rightarrow> 'h page" where
  "handleUrlChange u now pg =
     (let pg1 = (case urlChangeTimer (state pg) of
                   None \<Rightarrow> pg
                 | Some i \<Rightarrow>
                     if i \<noteq> 0
                     then (clearTimeout i pg)\<lparr>state := (state pg)\<lparr>urlChangeTimer := None\<rparr>\<rparr>
                     else pg);
          pg2 = pg1\<lparr>state := (state pg1)\<lparr>pendingUrl := Some u\<rparr>\<rparr>;
          r = setTimeout URL_PROCESS_DELAY now pg2
      in (snd r)\<lparr>state := (state (snd r))\<lparr>urlChangeTimer := Some (fst r)\<rparr>,
                 lastSignal := Some u\<rparr>)"

text \<open>
  What a handler does to the content script while it runs.  \<open>initUrlMonitor\<close> replaces
  \<open>history.pushState\<close> and \<open>history.replaceState\<close> by functions that call
  \<open>handleUrlChange(window.location.href)\<close> before they return, so a handler that calls them
  runs \<open>handleUrlChange\<close> inside \<open>processUrlChange\<close>.  A handler is described by the URLs of
  these calls, in order, given the handler and the \<open>url\<close> and \<open>timestamp\<close> of its
  \<open>pageInfo\<close>; the empty list is a handler that makes no such call.  \<open>historyCalls\<close> runs
  the calls.
\<close>

type_synonym 'h handler_effect = "'h \<Rightarrow> string option \<Rightarrow> int \<Rightarrow> string list"

fun historyCalls :: "string list \<Rightarrow> int \<Rightarrow> 'h page \<Rightarrow> 'h page" where
  "historyCalls [] now pg = pg"
| "historyCalls (v # vs) now pg = historyCalls vs now (handleUrlChange v now pg)"

text \<open>
  \<open>processUrlChange(url)\<close> with \<open>Date.now()\<close> returning \<open>now\<close>.  An exception of the site
  manager or of the handler is caught and logged.  The handler call is recorded, and the
  calls of \<open>handleUrlChange\<close> that the handler makes are run.
\<close>

definition processUrlChange ::
  "'h site_manager \<Rightarrow> 'h handler_effect \<Rightarrow> string option \<Rightarrow> int \<Rightarrow> 'h page \<Rightarrow> 'h page" where
  "processUrlChange SiteManager runs u now pg =
     (let pg0 = pg\<lparr>processed := processed pg @ [u]\<rparr>
      in if u = lastProcessedUrl (state pg0)
            \<and> now - lastProcessTime (state pg0) < URL_REPEAT_THRESHOLD
         then pg0
         else
           (let pg1 = pg0\<lparr>state := (state pg0)\<lparr>lastProcessedUrl := u, lastProcessTime := now\<rparr>\<rparr>
            in case SiteManager of
                 None \<Rightarrow> pg1
               | Some findHandlerForUrl' \<Rightarrow>
                   (let pg2 = pg1\<lparr>matcherCalls := matcherCalls pg1 @ [u]\<rparr>
                    in case findHandlerForUrl' u of
                         Inl error \<Rightarrow> pg2
                       | Inr None \<Rightarrow> pg2
                       | Inr (Some handler') \<Rightarrow>
                           historyCalls (runs handler' u now) now
                             (pg2\<lparr>handlerCalls := handlerCalls pg2 @ [(handler', u, now)]\<rparr>))))"

text \<open>The function that \<open>handleUrlChange\<close> hands to \<open>setTimeout\<close>, run at time \<open>now\<close>.\<close>

definition timerCallback ::
  "'h site_manager \<Rightarrow> 'h handler_effect \<Rightarrow> int \<Rightarrow> 'h page \<Rightarrow> 'h page" where
  "timerCallback SiteManager runs now pg =
     (let pg1 = processUrlChange SiteManager runs (pendingUrl (state pg)) now pg
      in pg1\<lparr>state := (state pg1)\<lparr>urlChangeTimer := None\<rparr>\<rparr>)"

text \<open>
  What happens to the page: a raw URL signal calls \<open>handleUrlChange\<close>; the browser fires a
  timeout that it still holds, not before it is due, removes it and runs the callback.
  Events carry their time, and time does not run backwards.  \<open>None\<close> is an event that
  cannot happen.
\<close>

datatype event = UrlSignal string | TimerFires nat

definition step ::
  "'h site_manager \<Rightarrow> 'h handler_effect \<Rightarrow> int \<times> event \<Rightarrow> 'h page \<Rightarrow> 'h page option" where
  "step SiteManager runs te pg =
     (if fst te < clock pg then None
      else case snd te of
             UrlSignal u \<Rightarrow> Some ((handleUrlChange u (fst te) pg)\<lparr>clock := fst te\<rparr>)
           | TimerFires i \<Rightarrow>
               (case map_of (timers pg) i of
                  None \<Rightarrow> None
                | Some due \<Rightarrow>
                    if fst te < due then None
                    else Some ((timerCallback SiteManager runs (fst te) (clearTimeout i pg))
                                 \<lparr>clock := fst te\<rparr>)))"

fun run ::
  "'h site_manager \<Rightarrow> 'h handler_effect \<Rightarrow> (int \<times> event) list \<Rightarrow> 'h page \<Rightarrow> 'h page option"
  where
  "run SiteManager runs [] pg = Some pg"
| "run SiteManager runs (te # tes) pg =
     (case step SiteManager runs te pg of
        None \<Rightarrow> None
      | Some pg' \<Rightarrow> run SiteManager runs tes pg')"

text \<open>No handler calls \<open>history.pushState\<close> or \<open>history.replaceState\<close> while it runs.\<close>

definition no_history_calls :: "'h handler_effect \<Rightarrow> bool" where
  "no_history_calls runs = (\<forall>h u now. runs h u now = [])"

text \<open>The page when the content script has been loaded, at time \<open>t0\<close>.\<close>

definition initial_state :: dispatch_state where
  "initial_state =
     \<lparr>lastProcessedUrl = Some [], lastProcessTime = 0, contentScriptLoaded = False,
      urlChangeTimer = None, pendingUrl = None\<rparr>"

definition initial_page :: "int \<Rightarrow> 'h page" where
  "initial_page t0 =
     \<lparr>state = initial_state, timers = [], nextTimerId = 1, processed = [],
      matcherCalls = [], handlerCalls = [], clock = t0, lastSignal = None\<rparr>"

text \<open>
  The invariant of the dispatch state: the browser holds at most one timeout of the
  content script, and it is the one recorded in \<open>urlChangeTimer\<close>; identifiers are
  positive; \<open>pendingUrl\<close>, when not \<open>null\<close>, is the URL of the latest signal.
\<close>

definition one_timer :: "'h page \<Rightarrow> bool" where
  "one_timer pg =
     (0 < nextTimerId pg \<and>
      (case timers pg of
         [] \<Rightarrow> True
       | [(i, due)] \<Rightarrow> urlChangeTimer (state pg) = Some i \<and> 0 < i
       | _ \<Rightarrow> False))"

definition pending_latest :: "'h page \<Rightarrow> bool" where
  "pending_latest pg =
     (pendingUrl (state pg) \<noteq> None \<longrightarrow> pendingUrl (state pg) = lastSignal pg)"

definition dispatch_invariant :: "'h page \<Rightarrow> bool" where
  "dispatch_invariant pg = (one_timer pg \<and> pending_latest pg)"


text \<open>
  The timeouts are due no earlier than \<open>URL_REPEAT_THRESHOLD\<close> after the last processing,
  which lies in the past.
\<close>

definition spaced :: "'h page \<Rightarrow> bool" where
  "spaced pg =
     (lastProcessTime (state pg) \<le> clock pg \<and>
      list_all (\<lambda>(i, due). lastProcessTime (state pg) + URL_REPEAT_THRESHOLD \<le> due) (timers pg))"

section \<open>Reference notions for the statements\<close>

text \<open>
  A stand-in for the browser's \<open>URL\<close> constructor on finitely many inputs: the table
  lists, for each URL string, the fields the browser computes for it; the constructor
  throws on every other string.
\<close>

definition URL_of :: "(string \<times> url_obj) list \<Rightarrow> string \<Rightarrow> exn + url_obj" where
  "URL_of table u = (case map_of table u of None \<Rightarrow> Inl TypeError | Some urlObj \<Rightarrow> Inr urlObj)"

text \<open>
  The segment-wise prefix relation in the words of the specification: both strings are
  cut into their non-empty \<open>/\<close>-delimited segments, the actual path has at least as many
  segments as the pattern, and the segments agree position by position.
\<close>

definition segments :: "string \<Rightarrow> string list" where
  "segments s = filter (\<lambda>p. p \<noteq> []) (split CHR ''/'' s)"

definition segment_prefix :: "string \<Rightarrow> string \<Rightarrow> bool" where
  "segment_prefix pattern actual =
     (length (segments pattern) \<le> length (segments actual) \<and>
      (\<forall>i < length (segments pattern). segments pattern ! i = segments actual ! i))"

text \<open>
  Path + query + fragment of a URL, in the words of the specification; \<open>search\<close> is
  empty or the query with its \<open>?\<close>, \<open>hash\<close> is empty or the fragment with its \<open>#\<close>.
\<close>

definition normalizedFullPath :: "url_obj \<Rightarrow> string" where
  "normalizedFullPath urlObj = pathname urlObj @ search urlObj @ hash urlObj"

text \<open>
  A stand-in for \<open>new RegExp\<close> in the same way: the table lists the patterns that
  compile, each with its \<open>test\<close> predicate; every other pattern is a syntax error.
\<close>

definition RegExp_of :: "(string \<times> (string \<Rightarrow> bool)) list \<Rightarrow> regexp_ctor" where
  "RegExp_of table src =
     (case map_of table src of None \<Rightarrow> Inl SyntaxError | Some test \<Rightarrow> Inr test)"

text \<open>
  Splitting in the words of the specification: \<open>split_first c s\<close> cuts \<open>s\<close> at the first
  occurrence of \<open>c\<close>, into what precedes it and all that follows it; \<open>parse_spec\<close> cuts
  at the first \<open>?\<close> and the remainder at the first \<open>#\<close>, and without a \<open>?\<close> it cuts at the
  first \<open>#\<close>.  The result is (path, query, fragment), the fragment with its \<open>#\<close>.
\<close>

definition split_first :: "char \<Rightarrow> string \<Rightarrow> (string \<times> string) option" where
  "split_first c s =
     (if c \<in> set s
      then Some (takeWhile (\<lambda>x. x \<noteq> c) s, drop 1 (dropWhile (\<lambda>x. x \<noteq> c) s))
      else None)"

definition parse_spec :: "string \<Rightarrow> string \<times> string \<times> string" where
  "parse_spec u =
     (case split_first CHR ''?'' u of
        Some (p, remainder) \<Rightarrow>
          (case split_first CHR ''#'' remainder of
             Some (q, f) \<Rightarrow> (p, q, CHR ''#'' # f)
           | None \<Rightarrow> (p, remainder, []))
      | None \<Rightarrow>
          (case split_first CHR ''#'' u of
             Some (p, f) \<Rightarrow> (p, [], CHR ''#'' # f)
           | None \<Rightarrow> (u, [], [])))"

text \<open>
  A handler that calls \<open>history.pushState\<close> once when it is dispatched for
  \<open>https://x/a\<close>, the location then being \<open>https://x/b\<close>, and not otherwise; and a site
  manager that returns the handler \<open>h\<close> for every URL.
\<close>

definition pushing_handler :: "'h handler_effect" where
  "pushing_handler h u now = (if u = Some ''https://x/a'' then [''https://x/b''] else [])"

definition one_handler :: "'h \<Rightarrow> 'h site_manager" where
  "one_handler h = Some (\<lambda>u. Inr (Some h))"

section \<open>Facts about the string functions\<close>

lemmas js_string_eval = str_includes_def startsWith_def endsWith_def sublist_code(3)
  suffix_to_prefix Let_def slice_0_neg1_def substring_def filter_Boolean_def

lemma split_not_Nil [simp]: "split c s \<noteq> []"
  by (induction s) (auto split: list.splits)

lemma endsWith_dot_includes: "endsWith h (''.'' @ m) \<Longrightarrow> str_includes h m"
proof -
  assume "endsWith h (''.'' @ m)"
  then obtain zs where "h = zs @ ''.'' @ m"
    by (auto simp: endsWith_def suffix_def)
  then have "h = (zs @ ''.'') @ m @ []" by simp
  then show ?thesis unfolding str_includes_def by (metis sublist_appendI)
qed

lemma siteMatches_includes: "siteMatches h site = str_includes h (url site)"
proof -
  have "hostname' = url site \<Longrightarrow> str_includes hostname' (url site)" for hostname'
    by (simp add: str_includes_def)
  then show ?thesis
    unfolding siteMatches_def using endsWith_dot_includes[of h "url site"] by blast
qed

section \<open>Site selection\<close>

text \<open>
  C10.  For every hostname \<open>h\<close> and every \<open>hostMatch\<close> string \<open>m\<close>, the disjunction of the
  site lookup (\<open>h\<close> equals \<open>m\<close>, or \<open>h\<close> ends with \<open>"." + m\<close>, or \<open>h\<close> contains \<open>m\<close>) holds
  exactly when \<open>h\<close> contains \<open>m\<close>; so the lookup selects the same site entry as the
  substring test alone would.
\<close>

theorem siteMatches_is_substring_test:
  "((h = m \<or> endsWith h (''.'' @ m) \<or> str_includes h m) = str_includes h m)
   \<and> siteMatches h site = str_includes h (url site)
   \<and> find (siteMatches h) siteConfigs = find (\<lambda>site. str_includes h (url site)) siteConfigs"
proof (intro conjI)
  have "h = m \<Longrightarrow> str_includes h m"
    by (simp add: str_includes_def)
  then show "(h = m \<or> endsWith h (''.'' @ m) \<or> str_includes h m) = str_includes h m"
    using endsWith_dot_includes[of h m] by blast
  show "siteMatches h site = str_includes h (url site)"
    by (rule siteMatches_includes)
  show "find (siteMatches h) siteConfigs = find (\<lambda>site. str_includes h (url site)) siteConfigs"
    by (rule arg_cong [of _ _ "\<lambda>p. find p siteConfigs"], rule ext, rule siteMatches_includes)
qed

text \<open>
  C6.  When the hostname of the URL satisfies none of the three hostname strategies
  (equal to \<open>hostMatch\<close>, ends with \<open>"." + hostMatch\<close>, contains \<open>hostMatch\<close>) for any
  registered site entry, \<open>findHandlerForUrl\<close> returns \<open>null\<close>; so does the
  \<open>findHandlerForUrl\<close> of \<open>src/siteManager.js\<close>.
\<close>

theorem findHandlerForUrl_no_site:
  assumes "\<And>urlObj. URL u = Inr urlObj \<Longrightarrow>
     \<forall>site \<in> set siteConfigs.
        hostname urlObj \<noteq> url site \<and> \<not> endsWith (hostname urlObj) (''.'' @ url site)
        \<and> \<not> str_includes (hostname urlObj) (url site)"
  shows "findHandlerForUrl URL RegExp siteConfigs u = Inr None
         \<and> findHandlerForUrl_siteManager_js URL RegExp siteConfigs u = Inr None"
proof (cases "URL u")
  case (Inl e)
  then show ?thesis
    by (simp add: findHandlerForUrl_def findHandlerForUrl_try_def
        findHandlerForUrl_siteManager_js_def findHandlerForUrl_siteManager_js_try_def)
next
  case (Inr urlObj)
  from assms[OF Inr] have "find (siteMatches (hostname urlObj)) siteConfigs = None"
    by (simp add: find_None_iff siteMatches_def)
  with Inr show ?thesis
    by (simp add: findHandlerForUrl_def findHandlerForUrl_try_def
        findHandlerForUrl_siteManager_js_def findHandlerForUrl_siteManager_js_try_def)
qed

theorem findHandlerForUrl_no_site_witness:
  "findHandlerForUrl
     (URL_of [(''https://other.org/a'',
               \<lparr>hostname = ''other.org'', pathname = ''/a'', search = [], hash = []\<rparr>)])
     (\<lambda>src. Inl SyntaxError)
     [\<lparr>url = ''andfleet.cm-iov.com'',
       routes = [\<lparr>path = ''/'', matchType = None, handler = (0::nat)\<rparr>]\<rparr>]
     ''https://other.org/a'' = Inr None
   \<and> findHandlerForUrl_siteManager_js
     (URL_of [(''https://other.org/a'',
               \<lparr>hostname = ''other.org'', pathname = ''/a'', search = [], hash = []\<rparr>)])
     (\<lambda>src. Inl SyntaxError)
     [\<lparr>url = ''andfleet.cm-iov.com'',
       routes = [\<lparr>path = ''/'', matchType = None, handler = (0::nat)\<rparr>]\<rparr>]
     ''https://other.org/a'' = Inr None"
  by (rule findHandlerForUrl_no_site) (simp add: URL_of_def js_string_eval)

section \<open>Route predicates\<close>

lemma matchPathPrefix_loop_iff:
  "matchPathPrefix_loop rs us i =
     (\<forall>j. i \<le> j \<and> j < length rs \<longrightarrow> at_index rs j = at_index us j)"
proof (induction rs us i rule: matchPathPrefix_loop.induct)
  case (1 rs us i)
  show ?case
  proof (cases "i < length rs")
    case False
    then show ?thesis by (auto simp add: matchPathPrefix_loop.simps[of rs us i])
  next
    case True
    show ?thesis
    proof (cases "at_index rs i = at_index us i")
      case False
      with True show ?thesis by (auto simp add: matchPathPrefix_loop.simps[of rs us i])
    next
      case eq: True
      have "matchPathPrefix_loop rs us i = matchPathPrefix_loop rs us (i + 1)"
        using True eq by (simp add: matchPathPrefix_loop.simps[of rs us i])
      also have "\<dots> = (\<forall>j. i + 1 \<le> j \<and> j < length rs \<longrightarrow> at_index rs j = at_index us j)"
        using 1 True eq by simp
      also have "\<dots> = (\<forall>j. i \<le> j \<and> j < length rs \<longrightarrow> at_index rs j = at_index us j)"
      proof (intro iffI allI impI)
        fix j
        assume h: "\<forall>j. i + 1 \<le> j \<and> j < length rs \<longrightarrow> at_index rs j = at_index us j"
          and j: "i \<le> j \<and> j < length rs"
        show "at_index rs j = at_index us j"
        proof (cases "j = i")
          case True
          with eq show ?thesis by simp
        next
          case False
          with j have "i + 1 \<le> j \<and> j < length rs" by arith
          with h show ?thesis by blast
        qed
      next
        fix j
        assume h: "\<forall>j. i \<le> j \<and> j < length rs \<longrightarrow> at_index rs j = at_index us j"
          and j: "i + 1 \<le> j \<and> j < length rs"
        then have "i \<le> j \<and> j < length rs" by arith
        with h show "at_index rs j = at_index us j" by blast
      qed
      finally show ?thesis .
    qed
  qed
qed

lemma matchPathPrefix_iff:
  "matchPathPrefix routePath urlParts = segment_prefix routePath (parts_path urlParts)"
  unfolding matchPathPrefix_def segment_prefix_def segments_def filter_Boolean_def Let_def
    matchPathPrefix_loop_iff
  by (auto simp: at_index_def)

lemma segments_root: "segments ''/'' = []"
  by (simp add: segments_def)

lemma routeMatches_prefix:
  assumes "matchType route \<noteq> Some ''exact''" "matchType route \<noteq> Some ''pathExact''"
    "matchType route \<noteq> Some ''regex''"
  shows "routeMatches RegExp fullPath route =
         segment_prefix (path route) (parts_path (parseUrlParts fullPath))"
proof (cases "path route = ''/''")
  case True
  then show ?thesis
    by (simp add: routeMatches_def matchAllPages_def segment_prefix_def segments_root)
next
  case False
  with assms show ?thesis
    by (simp add: routeMatches_def matchAllPages_def matchPathPrefix_iff Let_def)
qed

lemma dashboard_extra: "\<not> matchPathPrefix ''/dashboard'' (parseUrlParts ''/dashboard-extra'')"
  by (simp add: matchPathPrefix_iff segment_prefix_def segments_def parseUrlParts_def
      js_string_eval)

lemma dashboard_x: "matchPathPrefix ''/dashboard'' (parseUrlParts ''/dashboard/x'')"
  by (simp add: matchPathPrefix_iff segment_prefix_def segments_def parseUrlParts_def
      js_string_eval)

text \<open>
  C4.  \<open>matchPathPrefix\<close> holds exactly when, after both the pattern and the actual path
  are cut into non-empty \<open>/\<close>-delimited segments, the actual path has at least as many
  segments as the pattern and every pattern segment equals the actual segment at the same
  position.  A route whose \<open>matchType\<close> is \<open>"pathPrefix"\<close> (or any value other than
  \<open>"exact"\<close>, \<open>"pathExact"\<close>, \<open>"regex"\<close>, or unset) matches by this test on the path part
  of \<open>pathname + hash\<close>.  Pattern \<open>/dashboard\<close> does not match \<open>/dashboard-extra\<close> and
  matches \<open>/dashboard/x\<close>.
\<close>

theorem matchPathPrefix_segmentwise:
  "matchPathPrefix routePath urlParts = segment_prefix routePath (parts_path urlParts)
   \<and> (matchType route \<noteq> Some ''exact'' \<and> matchType route \<noteq> Some ''pathExact''
        \<and> matchType route \<noteq> Some ''regex'' \<longrightarrow>
      routeMatches RegExp fullPath route =
        segment_prefix (path route) (parts_path (parseUrlParts fullPath)))
   \<and> \<not> matchPathPrefix ''/dashboard'' (parseUrlParts ''/dashboard-extra'')
   \<and> matchPathPrefix ''/dashboard'' (parseUrlParts ''/dashboard/x'')"
  using matchPathPrefix_iff routeMatches_prefix dashboard_extra dashboard_x by blast

theorem matchPathPrefix_segmentwise_witness:
  "routeMatches (\<lambda>src. Inl SyntaxError) ''/a/b/c#h''
     \<lparr>path = ''/a/b'', matchType = Some ''pathPrefix'', handler = (0::nat)\<rparr>
   \<and> segment_prefix ''/a/b'' ''/a/b/c''
   \<and> \<not> segment_prefix ''/a/b'' ''/a/bc''"
  using matchPathPrefix_segmentwise
    [of "''/a/b''" "parseUrlParts ''/a/b/c#h''"
        "\<lparr>path = ''/a/b'', matchType = Some ''pathPrefix'', handler = (0::nat)\<rparr>"
        "\<lambda>src. Inl SyntaxError" "''/a/b/c#h''"]
  by (simp add: segment_prefix_def segments_def parseUrlParts_def js_string_eval
      All_less_Suc Ex_less_Suc)

section \<open>Exceptions\<close>

lemma find_skip: "\<not> P r \<Longrightarrow> find P (pre @ r # post) = find P (pre @ post)"
  by (induction pre) auto

lemma regex_rule_skipped:
  assumes "matchType r = Some ''regex''" "path r \<noteq> ''/''"
    "RegExp (substring (path r) 1 (int (length (path r)) - 1)) = Inl e"
  shows "findMatchingRoute RegExp \<lparr>url = m, routes = pre @ r # post\<rparr> fullPath pn h
       = findMatchingRoute RegExp \<lparr>url = m, routes = pre @ post\<rparr> fullPath pn h"
proof -
  have "\<not> routeMatches RegExp fullPath r"
    using assms by (simp add: routeMatches_def matchAllPages_def matchRegex_def)
  then show ?thesis by (simp add: findMatchingRoute_def find_skip)
qed

text \<open>
  C5.  \<open>findHandlerForUrl\<close> never throws: it always returns a value; a URL that the \<open>URL\<close>
  constructor rejects yields \<open>null\<close>; a pattern that \<open>RegExp\<close> rejects makes \<open>matchRegex\<close>
  false, and a \<open>regex\<close> route with such a pattern is skipped, the routes before and after
  it being searched in order as if it were absent.  (The pattern \<open>/\<close> is not compiled at
  all: it matches before \<open>matchType\<close> is read.)
\<close>

theorem findHandlerForUrl_never_throws:
  "(\<exists>r. findHandlerForUrl URL RegExp siteConfigs u = Inr r)
   \<and> (URL u = Inl e \<longrightarrow> findHandlerForUrl URL RegExp siteConfigs u = Inr None)
   \<and> (RegExp (substring p 1 (int (length p) - 1)) = Inl e' \<longrightarrow> \<not> matchRegex RegExp p fullPath)
   \<and> (matchType r = Some ''regex'' \<and> path r \<noteq> ''/''
        \<and> RegExp (substring (path r) 1 (int (length (path r)) - 1)) = Inl e' \<longrightarrow>
      findMatchingRoute RegExp \<lparr>url = m, routes = pre @ r # post\<rparr> fullPath pn h
        = findMatchingRoute RegExp \<lparr>url = m, routes = pre @ post\<rparr> fullPath pn h)"
proof (intro conjI impI)
  show "\<exists>r. findHandlerForUrl URL RegExp siteConfigs u = Inr r"
    by (simp add: findHandlerForUrl_def split: sum.splits)
  show "findHandlerForUrl URL RegExp siteConfigs u = Inr None" if "URL u = Inl e"
    using that by (simp add: findHandlerForUrl_def findHandlerForUrl_try_def)
  show "\<not> matchRegex RegExp p fullPath" if "RegExp (substring p 1 (int (length p) - 1)) = Inl e'"
    using that by (simp add: matchRegex_def)
  show "findMatchingRoute RegExp \<lparr>url = m, routes = pre @ r # post\<rparr> fullPath pn h
        = findMatchingRoute RegExp \<lparr>url = m, routes = pre @ post\<rparr> fullPath pn h"
    if "matchType r = Some ''regex'' \<and> path r \<noteq> ''/''
        \<and> RegExp (substring (path r) 1 (int (length (path r)) - 1)) = Inl e'"
    using that regex_rule_skipped by blast
qed

theorem findHandlerForUrl_never_throws_witness:
  "findHandlerForUrl (URL_of []) (RegExp_of []) ([]::nat site list) ''not a url'' = Inr None
   \<and> \<not> matchRegex (RegExp_of []) ''/^(a$/'' ''/b''
   \<and> findMatchingRoute (RegExp_of [])
        \<lparr>url = ''x'',
         routes = [\<lparr>path = ''/^(a$/'', matchType = Some ''regex'', handler = (1::nat)\<rparr>,
                   \<lparr>path = ''/b'', matchType = Some ''exact'', handler = 2\<rparr>]\<rparr>
        ''/b'' ''/b'' []
      = Some \<lparr>path = ''/b'', matchType = Some ''exact'', handler = 2\<rparr>"
  using findHandlerForUrl_never_throws
    [of "URL_of []" "RegExp_of []" "[]::nat site list" "''not a url''" TypeError
        "''/^(a$/''" SyntaxError "''/b''"
        "\<lparr>path = ''/^(a$/'', matchType = Some ''regex'', handler = (1::nat)\<rparr>" "''x''" "[]"
        "[\<lparr>path = ''/b'', matchType = Some ''exact'', handler = 2\<rparr>]" "''/b''" "[]"]
  by (simp add: URL_of_def RegExp_of_def findMatchingRoute_def routeMatches_def
      matchAllPages_def matchExact_def)

section \<open>Where the route matcher departs from its documentation\<close>

lemma exact_route_compares_pathname_hash:
  assumes "matchType route = Some ''exact''"
  shows "routeMatches RegExp fullPath route = (path route = ''/'' \<or> path route = fullPath)"
  using assms by (auto simp add: routeMatches_def matchAllPages_def matchExact_def)

lemma root_route_matches_all:
  assumes "path route = ''/''"
  shows "routeMatches RegExp fullPath route"
  using assms by (simp add: routeMatches_def matchAllPages_def)

text \<open>
  C1.  The claim is that an \<open>exact\<close> route matches exactly when its pattern equals
  path + query + fragment of the URL.  The matcher compares the pattern with
  \<open>pathname + hash\<close>, which leaves the query out: on \<open>https://x/p?x=1\<close>, whose
  path + query + fragment is \<open>/p?x=1\<close>, the pattern \<open>/p?x=1\<close> finds no handler and the
  pattern \<open>/p\<close> finds one.
\<close>

theorem exact_route_ignores_query:
  "normalizedFullPath \<lparr>hostname = ''x'', pathname = ''/p'', search = ''?x=1'', hash = []\<rparr>
     = ''/p?x=1''
   \<and> findHandlerForUrl
     (URL_of [(''https://x/p?x=1'',
               \<lparr>hostname = ''x'', pathname = ''/p'', search = ''?x=1'', hash = []\<rparr>)])
     RegExp
     [\<lparr>url = ''x'', routes = [\<lparr>path = ''/p?x=1'', matchType = Some ''exact'', handler = h\<rparr>]\<rparr>]
     ''https://x/p?x=1'' = Inr None
   \<and> findHandlerForUrl
     (URL_of [(''https://x/p?x=1'',
               \<lparr>hostname = ''x'', pathname = ''/p'', search = ''?x=1'', hash = []\<rparr>)])
     RegExp
     [\<lparr>url = ''x'', routes = [\<lparr>path = ''/p'', matchType = Some ''exact'', handler = h\<rparr>]\<rparr>]
     ''https://x/p?x=1'' = Inr (Some h)"
  by (simp add: findHandlerForUrl_def findHandlerForUrl_try_def URL_of_def siteMatches_def
      findMatchingRoute_def routeMatches_def matchAllPages_def matchExact_def js_string_eval
      normalizedFullPath_def)

text \<open>
  C2.  The claim is that a route with pattern \<open>/\<close> and an explicitly set \<open>matchType\<close> is
  decided by that match type.  The matcher tests the pattern \<open>/\<close> before it looks at
  \<open>matchType\<close>: the route \<open>/\<close> with \<open>matchType\<close> \<open>exact\<close> matches \<open>/a\<close>, which \<open>matchExact\<close>
  rejects, and its handler is returned for \<open>https://x/a\<close>.
\<close>

theorem root_route_ignores_matchType:
  "routeMatches RegExp ''/a'' \<lparr>path = ''/'', matchType = Some ''exact'', handler = h\<rparr>
   \<and> \<not> matchExact ''/'' ''/a''
   \<and> findHandlerForUrl
     (URL_of [(''https://x/a'',
               \<lparr>hostname = ''x'', pathname = ''/a'', search = [], hash = []\<rparr>)])
     RegExp
     [\<lparr>url = ''x'', routes = [\<lparr>path = ''/'', matchType = Some ''exact'', handler = h\<rparr>]\<rparr>]
     ''https://x/a'' = Inr (Some h)"
  by (simp add: findHandlerForUrl_def findHandlerForUrl_try_def URL_of_def siteMatches_def
      findMatchingRoute_def routeMatches_def matchAllPages_def matchExact_def js_string_eval)

text \<open>
  C3.  The claim is that \<open>parseUrlParts\<close> cuts at the first \<open>?\<close> and cuts the remainder at
  the first \<open>#\<close>.  It keeps only what lies between the first and the second \<open>?\<close>: on
  \<open>/a#b?c?d\<close> the query is \<open>c\<close> where cutting at the first \<open>?\<close> gives \<open>c?d\<close>.  Likewise
  only what lies between the first and the second \<open>#\<close> of the remainder is kept as
  fragment.  Without a \<open>?\<close> the whole rest after the first \<open>#\<close> is kept, and \<open>/a#/b\<close> is
  parsed as the claim says.
\<close>

theorem parseUrlParts_second_separator:
  "parseUrlParts ''/a#b?c?d'' =
     \<lparr>parts_path = ''/a#b'', parts_query = ''c'', parts_hash = [], parts_fullPath = ''/a#b?c''\<rparr>
   \<and> parse_spec ''/a#b?c?d'' = (''/a#b'', ''c?d'', [])
   \<and> parseUrlParts ''/a#b?c#d#e'' =
     \<lparr>parts_path = ''/a#b'', parts_query = ''c'', parts_hash = ''#d'',
      parts_fullPath = ''/a#b?c#d''\<rparr>
   \<and> parse_spec ''/a#b?c#d#e'' = (''/a#b'', ''c'', ''#d#e'')
   \<and> parseUrlParts ''/a#/b'' =
     \<lparr>parts_path = ''/a'', parts_query = [], parts_hash = ''#/b'', parts_fullPath = ''/a#/b''\<rparr>
   \<and> parse_spec ''/a#/b'' = (''/a'', [], ''#/b'')"
  by (simp add: parseUrlParts_def parse_spec_def split_first_def js_string_eval)

text \<open>
  On every other input \<open>parseUrlParts\<close> cuts as the specification says: always when
  there is no \<open>?\<close>, and with one \<open>?\<close> when at most one \<open>#\<close> follows it.
\<close>

lemma split_no_sep: "c \<notin> set s \<Longrightarrow> split c s = [s]"
  by (induction s) auto

lemma split_at_first: "c \<notin> set a \<Longrightarrow> split c (a @ c # b) = a # split c b"
  by (induction a) auto

lemma first_occurrence:
  assumes "c \<in> set s"
  shows "s = takeWhile (\<lambda>x. x \<noteq> c) s @ c # drop 1 (dropWhile (\<lambda>x. x \<noteq> c) s)"
proof -
  from assms have "dropWhile (\<lambda>x. x \<noteq> c) s \<noteq> []" by (simp add: dropWhile_eq_Nil_conv)
  moreover from this have "hd (dropWhile (\<lambda>x. x \<noteq> c) s) = c"
    using hd_dropWhile[of "\<lambda>x. x \<noteq> c" s] by simp
  ultimately have "dropWhile (\<lambda>x. x \<noteq> c) s = c # drop 1 (dropWhile (\<lambda>x. x \<noteq> c) s)"
    by (cases "dropWhile (\<lambda>x. x \<noteq> c) s") simp_all
  then show ?thesis
    using takeWhile_dropWhile_id[of "\<lambda>x. x \<noteq> c" s] by simp
qed

lemma takeWhile_no_sep: "c \<notin> set (takeWhile (\<lambda>x. x \<noteq> c) s)"
  by (induction s) auto

lemma join_Cons_Cons: "join c ((x # p) # ps) = x # join c (p # ps)"
  by (cases ps) simp_all

lemma join_split: "join c (split c s) = s"
proof (induction s)
  case Nil
  then show ?case by simp
next
  case (Cons x s)
  obtain p ps where sp: "split c s = p # ps" by (cases "split c s") simp_all
  with Cons show ?case by (simp add: join_Cons_Cons)
qed

lemma str_includes_single: "str_includes u [c] = (c \<in> set u)"
  by (induction u) (auto simp: str_includes_def sublist_Cons_right)

lemma count_list_once:
  assumes "count_list (a @ c # r) c \<le> 1"
  shows "c \<notin> set r"
proof -
  from assms have "count_list r c = 0" by simp
  then show ?thesis by (simp add: count_list_0_iff)
qed

lemma parseUrlParts_no_query:
  assumes "CHR ''?'' \<notin> set u"
  shows "(parts_path (parseUrlParts u), parts_query (parseUrlParts u), parts_hash (parseUrlParts u))
         = parse_spec u"
proof (cases "CHR ''#'' \<in> set u")
  case False
  with assms show ?thesis
    by (simp add: parseUrlParts_def parse_spec_def split_first_def split_no_sep
        str_includes_single Let_def)
next
  case True
  define a where "a = takeWhile (\<lambda>x. x \<noteq> CHR ''#'') u"
  define b where "b = drop 1 (dropWhile (\<lambda>x. x \<noteq> CHR ''#'') u)"
  from first_occurrence[OF True] have u: "u = a @ CHR ''#'' # b" by (simp add: a_def b_def)
  have na: "CHR ''#'' \<notin> set a" unfolding a_def by (rule takeWhile_no_sep)
  have sp: "split CHR ''#'' u = a # split CHR ''#'' b"
    by (subst u) (rule split_at_first[OF na])
  from assms True show ?thesis
    by (simp add: parseUrlParts_def parse_spec_def split_first_def split_no_sep
        str_includes_single Let_def sp join_split a_def b_def)
qed

lemma hd_split: "hd (split c s) = takeWhile (\<lambda>x. x \<noteq> c) s"
  by (induction s) (auto split: list.splits)

lemma parseUrlParts_one_query:
  assumes q: "CHR ''?'' \<in> set u"
    and one: "count_list u CHR ''?'' \<le> 1"
    and frag: "count_list (drop 1 (dropWhile (\<lambda>x. x \<noteq> CHR ''?'') u)) CHR ''#'' \<le> 1"
  shows "(parts_path (parseUrlParts u), parts_query (parseUrlParts u), parts_hash (parseUrlParts u))
         = parse_spec u"
proof -
  define a where "a = takeWhile (\<lambda>x. x \<noteq> CHR ''?'') u"
  define r where "r = drop 1 (dropWhile (\<lambda>x. x \<noteq> CHR ''?'') u)"
  from first_occurrence[OF q] have u: "u = a @ CHR ''?'' # r" by (simp add: a_def r_def)
  have na: "CHR ''?'' \<notin> set a" unfolding a_def by (rule takeWhile_no_sep)
  from one u have nr: "CHR ''?'' \<notin> set r" using count_list_once[of a "CHR ''?''" r] by simp
  have sp: "split CHR ''?'' u = [a, r]"
    by (subst u) (simp add: split_at_first[OF na] split_no_sep[OF nr])
  have sf: "split_first CHR ''?'' u = Some (a, r)"
    using q by (simp add: split_first_def a_def r_def)
  show ?thesis
  proof (cases "CHR ''#'' \<in> set r")
    case False
    then have sf2: "split_first CHR ''#'' r = None" by (simp add: split_first_def)
    from False show ?thesis
      by (simp add: parseUrlParts_def parse_spec_def sf sp sf2 Let_def split_no_sep)
  next
    case True
    define q' where "q' = takeWhile (\<lambda>x. x \<noteq> CHR ''#'') r"
    define f where "f = drop 1 (dropWhile (\<lambda>x. x \<noteq> CHR ''#'') r)"
    from first_occurrence[OF True] have r': "r = q' @ CHR ''#'' # f" by (simp add: q'_def f_def)
    have nq: "CHR ''#'' \<notin> set q'" unfolding q'_def by (rule takeWhile_no_sep)
    from frag r' have nf: "CHR ''#'' \<notin> set f"
      using count_list_once[of q' "CHR ''#''" f] by (simp add: r_def)
    have sp2: "split CHR ''#'' r = [q', f]"
      by (subst r') (simp add: split_at_first[OF nq] split_no_sep[OF nf])
    have sf2: "split_first CHR ''#'' r = Some (q', f)"
      using True by (simp add: split_first_def q'_def f_def)
    show ?thesis
      by (simp add: parseUrlParts_def parse_spec_def sf sp sf2 sp2 Let_def)
  qed
qed

section \<open>The content script: what the operations change\<close>

lemma handleUrlChange_frame:
  "nextTimerId (handleUrlChange u now pg) = nextTimerId pg + 1"
  "processed (handleUrlChange u now pg) = processed pg"
  "matcherCalls (handleUrlChange u now pg) = matcherCalls pg"
  "handlerCalls (handleUrlChange u now pg) = handlerCalls pg"
  "clock (handleUrlChange u now pg) = clock pg"
  "lastSignal (handleUrlChange u now pg) = Some u"
  "pendingUrl (state (handleUrlChange u now pg)) = Some u"
  "urlChangeTimer (state (handleUrlChange u now pg)) = Some (nextTimerId pg)"
  "lastProcessedUrl (state (handleUrlChange u now pg)) = lastProcessedUrl (state pg)"
  "lastProcessTime (state (handleUrlChange u now pg)) = lastProcessTime (state pg)"
  by (simp_all add: handleUrlChange_def setTimeout_def clearTimeout_def Let_def split: option.splits)

lemma handleUrlChange_timers:
  assumes "one_timer pg"
  shows "timers (handleUrlChange u now pg) = [(nextTimerId pg, now + URL_PROCESS_DELAY)]"
  using assms
  by (auto simp add: one_timer_def handleUrlChange_def setTimeout_def clearTimeout_def Let_def
      split: option.splits list.splits)

lemma historyCalls_frame:
  "processed (historyCalls vs now pg) = processed pg"
  "matcherCalls (historyCalls vs now pg) = matcherCalls pg"
  "handlerCalls (historyCalls vs now pg) = handlerCalls pg"
  "clock (historyCalls vs now pg) = clock pg"
  "lastProcessedUrl (state (historyCalls vs now pg)) = lastProcessedUrl (state pg)"
  "lastProcessTime (state (historyCalls vs now pg)) = lastProcessTime (state pg)"
  by (induction vs arbitrary: pg; simp add: handleUrlChange_frame)+

lemma processUrlChange_log:
  "processed (processUrlChange SM runs u now pg) = processed pg @ [u]"
  "clock (processUrlChange SM runs u now pg) = clock pg"
  by (simp_all add: processUrlChange_def Let_def historyCalls_frame split: option.splits sum.splits)

lemma processUrlChange_frame:
  assumes "no_history_calls runs"
  shows "timers (processUrlChange SM runs u now pg) = timers pg"
    "nextTimerId (processUrlChange SM runs u now pg) = nextTimerId pg"
    "lastSignal (processUrlChange SM runs u now pg) = lastSignal pg"
    "pendingUrl (state (processUrlChange SM runs u now pg)) = pendingUrl (state pg)"
    "urlChangeTimer (state (processUrlChange SM runs u now pg)) = urlChangeTimer (state pg)"
  using assms
  by (simp_all add: processUrlChange_def no_history_calls_def Let_def
      split: option.splits sum.splits)

lemma timerCallback_log:
  "processed (timerCallback SM runs now pg) = processed pg @ [pendingUrl (state pg)]"
  "urlChangeTimer (state (timerCallback SM runs now pg)) = None"
  by (simp_all add: timerCallback_def Let_def processUrlChange_log)

lemma timerCallback_frame:
  assumes "no_history_calls runs"
  shows "timers (timerCallback SM runs now pg) = timers pg"
    "nextTimerId (timerCallback SM runs now pg) = nextTimerId pg"
    "lastSignal (timerCallback SM runs now pg) = lastSignal pg"
    "pendingUrl (state (timerCallback SM runs now pg)) = pendingUrl (state pg)"
  by (simp_all add: timerCallback_def Let_def processUrlChange_frame[OF assms])

lemma clearTimeout_frame:
  "nextTimerId (clearTimeout i pg) = nextTimerId pg"
  "processed (clearTimeout i pg) = processed pg"
  "state (clearTimeout i pg) = state pg"
  "lastSignal (clearTimeout i pg) = lastSignal pg"
  "clock (clearTimeout i pg) = clock pg"
  by (simp_all add: clearTimeout_def)












section \<open>The invariant of the dispatch state\<close>


lemma one_timer_lookup:
  assumes "one_timer pg" "map_of (timers pg) i = Some due"
  shows "timers pg = [(i, due)]"
  using assms by (auto simp: one_timer_def split: list.splits if_splits)

lemma inv_signal:
  assumes "dispatch_invariant pg"
  shows "dispatch_invariant ((handleUrlChange u t pg)\<lparr>clock := t\<rparr>)"
proof -
  from assms have ot: "one_timer pg" and pos: "0 < nextTimerId pg"
    by (simp_all add: dispatch_invariant_def one_timer_def)
  show ?thesis
    using pos
    by (simp add: dispatch_invariant_def one_timer_def pending_latest_def
        handleUrlChange_timers[OF ot] handleUrlChange_frame)
qed

lemma inv_fire:
  assumes q: "no_history_calls runs"
    and "dispatch_invariant pg" "map_of (timers pg) i = Some due"
  shows "dispatch_invariant ((timerCallback SM runs t (clearTimeout i pg))\<lparr>clock := t\<rparr>)"
proof -
  from assms have ot: "one_timer pg" and pl: "pending_latest pg"
    by (simp_all add: dispatch_invariant_def)
  from one_timer_lookup[OF ot assms(3)] have "timers (clearTimeout i pg) = []"
    by (simp add: clearTimeout_def)
  with ot pl show ?thesis
    by (simp add: dispatch_invariant_def one_timer_def pending_latest_def
        timerCallback_frame[OF q] timerCallback_log clearTimeout_frame)
qed

lemma inv_step:
  assumes q: "no_history_calls runs"
    and "dispatch_invariant pg" "step SM runs te pg = Some pg'"
  shows "dispatch_invariant pg'"
proof (cases "snd te")
  case (UrlSignal u)
  with assms(3) have "pg' = (handleUrlChange u (fst te) pg)\<lparr>clock := fst te\<rparr>"
    by (simp add: step_def split: if_splits)
  with inv_signal[OF assms(2)] show ?thesis by simp
next
  case (TimerFires i)
  with assms(3) obtain due where "map_of (timers pg) i = Some due"
    and "pg' = (timerCallback SM runs (fst te) (clearTimeout i pg))\<lparr>clock := fst te\<rparr>"
    by (auto simp add: step_def split: if_splits option.splits)
  with inv_fire[OF q assms(2)] show ?thesis by simp
qed

lemma inv_run:
  assumes q: "no_history_calls runs"
    and "dispatch_invariant pg" "run SM runs tes pg = Some pg'"
  shows "dispatch_invariant pg'"
  using assms(2-)
proof (induction tes arbitrary: pg)
  case Nil
  then show ?case by simp
next
  case (Cons te tes)
  then obtain pg1 where s: "step SM runs te pg = Some pg1"
    and r: "run SM runs tes pg1 = Some pg'"
    by (auto split: option.splits)
  from Cons.IH[OF inv_step[OF q Cons.prems(1) s] r] show ?case .
qed

lemma inv_length: "dispatch_invariant pg \<Longrightarrow> length (timers pg) \<le> 1"
  by (auto simp: dispatch_invariant_def one_timer_def split: list.splits)

text \<open>
  Whatever the handlers do, \<open>pendingUrl\<close>, when not \<open>null\<close>, is the URL of the latest call
  of \<open>handleUrlChange\<close>.
\<close>

lemma pending_latest_handleUrlChange: "pending_latest (handleUrlChange u now pg)"
  by (simp add: pending_latest_def handleUrlChange_frame)

lemma pending_latest_historyCalls:
  "pending_latest pg \<Longrightarrow> pending_latest (historyCalls vs now pg)"
  by (induction vs arbitrary: pg) (simp_all add: pending_latest_handleUrlChange)

lemma pending_latest_processUrlChange:
  assumes "pending_latest pg"
  shows "pending_latest (processUrlChange SM runs u now pg)"
proof -
  have a: "pending_latest (pg\<lparr>processed := p, state := (state pg)\<lparr>lastProcessedUrl := l, lastProcessTime := t\<rparr>,
             matcherCalls := m, handlerCalls := c\<rparr>)" for p l t m c
    using assms by (simp add: pending_latest_def)
  have b: "pending_latest (pg\<lparr>processed := p, state := (state pg)\<lparr>lastProcessedUrl := l, lastProcessTime := t\<rparr>,
             matcherCalls := m\<rparr>)" for p l t m
    using assms by (simp add: pending_latest_def)
  have c: "pending_latest (pg\<lparr>processed := p, state := (state pg)\<lparr>lastProcessedUrl := l, lastProcessTime := t\<rparr>\<rparr>)"
    for p l t
    using assms by (simp add: pending_latest_def)
  have d: "pending_latest (pg\<lparr>processed := p\<rparr>)" for p
    using assms by (simp add: pending_latest_def)
  show ?thesis
    using pending_latest_historyCalls[OF a] b c d
    by (simp add: processUrlChange_def Let_def split: option.splits sum.splits)
qed

lemma pending_latest_step:
  assumes "pending_latest pg" "step SM runs te pg = Some pg'"
  shows "pending_latest pg'"
proof (cases "snd te")
  case (UrlSignal u)
  with assms(2) have "pg' = (handleUrlChange u (fst te) pg)\<lparr>clock := fst te\<rparr>"
    by (simp add: step_def split: if_splits)
  with pending_latest_handleUrlChange[of u "fst te" pg] show ?thesis
    by (simp add: pending_latest_def)
next
  case (TimerFires i)
  with assms(2) have pg': "pg' = (timerCallback SM runs (fst te) (clearTimeout i pg))\<lparr>clock := fst te\<rparr>"
    by (auto simp add: step_def split: if_splits option.splits)
  from assms(1) have "pending_latest (clearTimeout i pg)"
    by (simp add: pending_latest_def clearTimeout_def)
  from pending_latest_processUrlChange[OF this, of SM runs "pendingUrl (state (clearTimeout i pg))" "fst te"]
  show ?thesis
    by (simp add: pg' timerCallback_def Let_def pending_latest_def)
qed

lemma pending_latest_run:
  assumes "pending_latest pg" "run SM runs tes pg = Some pg'"
  shows "pending_latest pg'"
  using assms
proof (induction tes arbitrary: pg)
  case Nil
  then show ?case by simp
next
  case (Cons te tes)
  then obtain pg1 where s: "step SM runs te pg = Some pg1"
    and r: "run SM runs tes pg1 = Some pg'"
    by (auto split: option.splits)
  from Cons.IH[OF pending_latest_step[OF Cons.prems(1) s] r] show ?case .
qed

lemmas dispatch_eval = step_def handleUrlChange_def setTimeout_def clearTimeout_def
  timerCallback_def processUrlChange_def initial_page_def initial_state_def
  URL_PROCESS_DELAY_def URL_REPEAT_THRESHOLD_def Let_def pushing_handler_def one_handler_def
  dispatch_invariant_def one_timer_def pending_latest_def

text \<open>
  C9.  The claim is that every operation of the dispatch coordinator keeps at most one
  scheduled timeout live.  The timer callback does not, when the handler it invokes calls
  \<open>history.pushState\<close>: \<open>handleUrlChange\<close> then runs inside \<open>processUrlChange\<close> and schedules
  timeout 2, and the last statement of the callback sets \<open>urlChangeTimer\<close> to \<open>null\<close> while
  that timeout is live.  The next signal finds nothing to cancel and schedules timeout 3:
  two timeouts are live.  Both fire, and \<open>processUrlChange\<close> is called twice for the one
  pending URL, the second call being dropped by the repeat threshold.
\<close>

theorem history_call_in_handler_leaves_two_timers:
  "map_option (\<lambda>pg. (timers pg, urlChangeTimer (state pg), dispatch_invariant pg))
     (run (one_handler h) pushing_handler
        [(0, UrlSignal ''https://x/a''), (2000, TimerFires 1)] (initial_page 0))
     = Some ([(2, 4000)], None, False)
   \<and> map_option timers
     (run (one_handler h) pushing_handler
        [(0, UrlSignal ''https://x/a''), (2000, TimerFires 1), (2100, UrlSignal ''https://x/c'')]
        (initial_page 0))
     = Some [(2, 4000), (3, 4100)]
   \<and> map_option (\<lambda>pg. (processed pg, handlerCalls pg, timers pg))
     (run (one_handler h) pushing_handler
        [(0, UrlSignal ''https://x/a''), (2000, TimerFires 1), (2100, UrlSignal ''https://x/c''),
         (4000, TimerFires 2), (4100, TimerFires 3)]
        (initial_page 0))
     = Some ([Some ''https://x/a'', Some ''https://x/c'', Some ''https://x/c''],
             [(h, Some ''https://x/a'', 2000), (h, Some ''https://x/c'', 4000)], [])"
  by (simp add: dispatch_eval)

section \<open>The repeat threshold\<close>

lemma processUrlChange_dropped:
  assumes "lastProcessedUrl (state pg) = u" "now - lastProcessTime (state pg) < URL_REPEAT_THRESHOLD"
  shows "processUrlChange SM runs u now pg = pg\<lparr>processed := processed pg @ [u]\<rparr>"
  using assms by (simp add: processUrlChange_def)

lemma processUrlChange_invokes:
  assumes "lastProcessedUrl (state pg) \<noteq> u \<or> URL_REPEAT_THRESHOLD \<le> now - lastProcessTime (state pg)"
    "f u = Inr (Some h)"
  shows "matcherCalls (processUrlChange (Some f) runs u now pg) = matcherCalls pg @ [u]"
    "handlerCalls (processUrlChange (Some f) runs u now pg) = handlerCalls pg @ [(h, u, now)]"
    "lastProcessedUrl (state (processUrlChange (Some f) runs u now pg)) = u"
    "lastProcessTime (state (processUrlChange (Some f) runs u now pg)) = now"
  using assms by (auto simp add: processUrlChange_def Let_def historyCalls_frame)

text \<open>
  C8.  When \<open>processUrlChange\<close> runs for the URL equal to \<open>lastProcessedUrl\<close> less than
  \<open>URL_REPEAT_THRESHOLD\<close> (2000 ms) after \<open>lastProcessTime\<close>, it returns at once: nothing
  but the log changes, neither the site manager nor a handler is called.  At or above the
  threshold the site manager is called and the handler it returns is invoked.  So of two
  dispatches of the same URL, the first one processed, the second invokes the handler
  again exactly when at least 2000 ms lie between them.
\<close>

theorem repeat_threshold:
  "(lastProcessedUrl (state pg) = u \<and> now - lastProcessTime (state pg) < URL_REPEAT_THRESHOLD \<longrightarrow>
      processUrlChange SM runs u now pg = pg\<lparr>processed := processed pg @ [u]\<rparr>)
   \<and> (lastProcessedUrl (state pg) = u \<and> URL_REPEAT_THRESHOLD \<le> now - lastProcessTime (state pg)
        \<and> f u = Inr (Some h) \<longrightarrow>
      matcherCalls (processUrlChange (Some f) runs u now pg) = matcherCalls pg @ [u]
      \<and> handlerCalls (processUrlChange (Some f) runs u now pg) = handlerCalls pg @ [(h, u, now)])
   \<and> (f u = Inr (Some h)
        \<and> (lastProcessedUrl (state pg) \<noteq> u \<or> URL_REPEAT_THRESHOLD \<le> t1 - lastProcessTime (state pg)) \<longrightarrow>
      (t2 - t1 < URL_REPEAT_THRESHOLD \<longrightarrow>
         matcherCalls (processUrlChange (Some f) runs u t2 (processUrlChange (Some f) runs u t1 pg))
           = matcherCalls pg @ [u]
         \<and> handlerCalls (processUrlChange (Some f) runs u t2 (processUrlChange (Some f) runs u t1 pg))
           = handlerCalls pg @ [(h, u, t1)])
      \<and> (URL_REPEAT_THRESHOLD \<le> t2 - t1 \<longrightarrow>
         handlerCalls (processUrlChange (Some f) runs u t2 (processUrlChange (Some f) runs u t1 pg))
           = handlerCalls pg @ [(h, u, t1), (h, u, t2)]))
   \<and> URL_REPEAT_THRESHOLD = 2000"
proof (intro conjI impI)
  show "processUrlChange SM runs u now pg = pg\<lparr>processed := processed pg @ [u]\<rparr>"
    if "lastProcessedUrl (state pg) = u \<and> now - lastProcessTime (state pg) < URL_REPEAT_THRESHOLD"
    using that by (simp add: processUrlChange_dropped)
  show "URL_REPEAT_THRESHOLD = 2000" by (simp add: URL_REPEAT_THRESHOLD_def)
next
  assume a: "lastProcessedUrl (state pg) = u \<and> URL_REPEAT_THRESHOLD \<le> now - lastProcessTime (state pg)
        \<and> f u = Inr (Some h)"
  then have c: "lastProcessedUrl (state pg) \<noteq> u \<or> URL_REPEAT_THRESHOLD \<le> now - lastProcessTime (state pg)"
    and fu: "f u = Inr (Some h)" by simp_all
  show "matcherCalls (processUrlChange (Some f) runs u now pg) = matcherCalls pg @ [u]"
    by (rule processUrlChange_invokes(1)[where f=f and u=u and h=h, OF c fu])
  show "handlerCalls (processUrlChange (Some f) runs u now pg) = handlerCalls pg @ [(h, u, now)]"
    by (rule processUrlChange_invokes(2)[where f=f and u=u and h=h, OF c fu])
next
  assume a: "f u = Inr (Some h)
        \<and> (lastProcessedUrl (state pg) \<noteq> u \<or> URL_REPEAT_THRESHOLD \<le> t1 - lastProcessTime (state pg))"
  then have c: "lastProcessedUrl (state pg) \<noteq> u \<or> URL_REPEAT_THRESHOLD \<le> t1 - lastProcessTime (state pg)"
    and fu: "f u = Inr (Some h)" by simp_all
  define pg1 where "pg1 = processUrlChange (Some f) runs u t1 pg"
  note first = processUrlChange_invokes[where f=f and u=u and h=h and runs=runs, OF c fu,
      folded pg1_def]
  { assume b: "t2 - t1 < URL_REPEAT_THRESHOLD"
    with first have "processUrlChange (Some f) runs u t2 pg1 = pg1\<lparr>processed := processed pg1 @ [u]\<rparr>"
      by (intro processUrlChange_dropped) simp_all
    with first show "matcherCalls (processUrlChange (Some f) runs u t2 (processUrlChange (Some f) runs u t1 pg))
           = matcherCalls pg @ [u]"
      and "handlerCalls (processUrlChange (Some f) runs u t2 (processUrlChange (Some f) runs u t1 pg))
           = handlerCalls pg @ [(h, u, t1)]"
      by (simp_all add: pg1_def [symmetric]) }
  { assume b: "URL_REPEAT_THRESHOLD \<le> t2 - t1"
    with first have c2: "lastProcessedUrl (state pg1) \<noteq> u
        \<or> URL_REPEAT_THRESHOLD \<le> t2 - lastProcessTime (state pg1)" by simp
    from processUrlChange_invokes(2)[where f=f and u=u and h=h and runs=runs, OF c2 fu] first
    show "handlerCalls (processUrlChange (Some f) runs u t2 (processUrlChange (Some f) runs u t1 pg))
           = handlerCalls pg @ [(h, u, t1), (h, u, t2)]"
      by (simp add: pg1_def [symmetric]) }
qed

theorem repeat_threshold_witness:
  "handlerCalls (processUrlChange (Some (\<lambda>u. Inr (Some (7::nat)))) (\<lambda>h u now. [])
      (Some ''https://x/a'') 5500
      (processUrlChange (Some (\<lambda>u. Inr (Some 7))) (\<lambda>h u now. [])
         (Some ''https://x/a'') 5000 (initial_page 0)))
     = [(7, Some ''https://x/a'', 5000)]
   \<and> handlerCalls (processUrlChange (Some (\<lambda>u. Inr (Some (7::nat)))) (\<lambda>h u now. [])
      (Some ''https://x/a'') 7500
      (processUrlChange (Some (\<lambda>u. Inr (Some 7))) (\<lambda>h u now. [])
         (Some ''https://x/a'') 5000 (initial_page 0)))
     = [(7, Some ''https://x/a'', 5000), (7, Some ''https://x/a'', 7500)]"
proof -
  let ?pg = "initial_page 0 :: nat page"
  let ?f = "\<lambda>u::string option. Inr (Some (7::nat)) :: exn + nat option"
  let ?r = "\<lambda>(h::nat) (u::string option) (now::int). [] :: string list"
  let ?u = "Some ''https://x/a''"
  have h: "?f ?u = Inr (Some 7)
       \<and> (lastProcessedUrl (state ?pg) \<noteq> ?u
           \<or> URL_REPEAT_THRESHOLD \<le> 5000 - lastProcessTime (state ?pg))"
    by (simp add: initial_page_def initial_state_def)
  have e: "handlerCalls ?pg = []" by (simp add: initial_page_def)
  have lt: "(5500::int) - 5000 < URL_REPEAT_THRESHOLD"
    and ge: "URL_REPEAT_THRESHOLD \<le> (7500::int) - 5000"
    by (simp_all add: URL_REPEAT_THRESHOLD_def)
  from repeat_threshold[of ?pg ?u 0 None ?r ?f 7 5000 5500, THEN conjunct2, THEN conjunct2,
      THEN conjunct1, THEN mp, OF h, THEN conjunct1, THEN mp, OF lt, THEN conjunct2]
  have a: "handlerCalls (processUrlChange (Some ?f) ?r ?u 5500
             (processUrlChange (Some ?f) ?r ?u 5000 ?pg)) = [(7, ?u, 5000)]"
    unfolding e by simp
  from repeat_threshold[of ?pg ?u 0 None ?r ?f 7 5000 7500, THEN conjunct2, THEN conjunct2,
      THEN conjunct1, THEN mp, OF h, THEN conjunct2, THEN mp, OF ge]
  have b: "handlerCalls (processUrlChange (Some ?f) ?r ?u 7500
             (processUrlChange (Some ?f) ?r ?u 5000 ?pg)) = [(7, ?u, 5000), (7, ?u, 7500)]"
    unfolding e by simp
  from a b show ?thesis by (rule conjI)
qed

text \<open>
  Between a signal and the firing of its timeout lie at least \<open>URL_PROCESS_DELAY\<close>
  milliseconds, and the delay is not smaller than the threshold.  So when timeouts fire
  no earlier than due, the clock of \<open>Date.now()\<close> is the clock of the timeouts and no
  handler calls \<open>history.pushState\<close> or \<open>history.replaceState\<close>, a dispatch that comes
  through \<open>handleUrlChange\<close> is never dropped by the repeat threshold.
\<close>

lemma processUrlChange_time:
  "lastProcessTime (state (processUrlChange SM runs u now pg)) = now
   \<or> lastProcessTime (state (processUrlChange SM runs u now pg)) = lastProcessTime (state pg)"
  by (simp add: processUrlChange_def Let_def historyCalls_frame split: option.splits sum.splits)

lemma spaced_initial: "0 \<le> t0 \<Longrightarrow> spaced (initial_page t0)"
  by (simp add: spaced_def initial_page_def initial_state_def)

lemma spaced_step:
  assumes q: "no_history_calls runs"
    and "dispatch_invariant pg" "spaced pg" "step SM runs te pg = Some pg'"
  shows "spaced pg'"
proof (cases "snd te")
  case (UrlSignal u)
  with assms(4) have pg': "pg' = (handleUrlChange u (fst te) pg)\<lparr>clock := fst te\<rparr>"
    and t: "clock pg \<le> fst te"
    by (simp_all add: step_def split: if_splits)
  from assms(2) have ot: "one_timer pg" by (simp add: dispatch_invariant_def)
  from assms(3) t show ?thesis
    by (simp add: spaced_def pg' handleUrlChange_timers[OF ot] handleUrlChange_frame
        URL_PROCESS_DELAY_def URL_REPEAT_THRESHOLD_def)
next
  case (TimerFires i)
  with assms(4) obtain due where l: "map_of (timers pg) i = Some due"
    and pg': "pg' = (timerCallback SM runs (fst te) (clearTimeout i pg))\<lparr>clock := fst te\<rparr>"
    and t: "clock pg \<le> fst te"
    by (auto simp add: step_def split: if_splits option.splits)
  from assms(2) have ot: "one_timer pg" by (simp add: dispatch_invariant_def)
  from one_timer_lookup[OF ot l] have "timers (clearTimeout i pg) = []"
    by (simp add: clearTimeout_def)
  then have tm: "timers pg' = []" by (simp add: pg' timerCallback_frame[OF q])
  have "lastProcessTime (state pg') = fst te \<or> lastProcessTime (state pg') = lastProcessTime (state pg)"
    using processUrlChange_time[of SM runs "pendingUrl (state (clearTimeout i pg))" "fst te"
        "clearTimeout i pg"]
    by (simp add: pg' timerCallback_def Let_def clearTimeout_frame)
  with assms(3) t tm show ?thesis
    by (auto simp add: spaced_def pg')
qed

lemma fire_not_dropped:
  assumes "dispatch_invariant pg" "spaced pg" "step SM runs (t, TimerFires i) pg = Some pg'"
  shows "URL_REPEAT_THRESHOLD \<le> t - lastProcessTime (state pg)"
proof -
  from assms(3) obtain due where l: "map_of (timers pg) i = Some due" and d: "due \<le> t"
    by (auto simp add: step_def split: if_splits option.splits)
  from assms(1) have ot: "one_timer pg" by (simp add: dispatch_invariant_def)
  from one_timer_lookup[OF ot l] assms(2) d show ?thesis by (simp add: spaced_def)
qed

section \<open>Bursts of signals\<close>






end
